theory Spec2Isabelle
  imports Main "HOL-Library.Char_ord"
begin

section \<open>Persistent ternary search trees (\<^verbatim>\<open>src/tst.h\<close>)\<close>

text \<open>
  The class template \<^verbatim>\<open>TST<C>\<close> is a handle on an immutable, reference-counted
  \<^verbatim>\<open>Node\<close>; a null root is the empty tree. All fields are \<^verbatim>\<open>const\<close>, so a tree is
  a finite value: the empty tree, or a node with a symbol, a word flag and three subtrees.

  The symbol type \<open>'c\<close> is the template parameter \<^verbatim>\<open>C\<close>. The code compares symbols with
  \<^verbatim>\<open><\<close> and \<^verbatim>\<open>>\<close> (a linear order) and tests them against the terminator \<^verbatim>\<open>'\0'\<close>
  (the \<open>0\<close> of the type).
\<close>

subsection \<open>Data model\<close>

datatype error = EmptyTreeError

datatype 'c TST =
    Empty
  | Node (root_value: 'c) (root_word: bool)
         (root_left: "'c TST") (root_center: "'c TST") (root_right: "'c TST")

text \<open>
  A \<^verbatim>\<open>const C *str\<close> points into a buffer that ends with a terminator. It is modelled by
  the list of the symbols in front of that final terminator; \<^verbatim>\<open>*str\<close> reads the first
  one, or the terminator when none is left, and \<^verbatim>\<open>str + 1\<close> is the tail. The buffer of a
  \<^verbatim>\<open>std::basic_string\<close> may hold terminator symbols inside (\<^verbatim>\<open>c_str()\<close> hands out the
  whole buffer, \<^verbatim>\<open>length()\<close> counts all of it), so the list is not assumed to be free of
  \<open>0\<close>. The sequence a pointer denotes for the code is \<open>cstr\<close>: the symbols in front of
  the first terminator.
\<close>

definition deref :: "'c::zero list \<Rightarrow> 'c" where
  "deref str = (case str of [] \<Rightarrow> 0 | c # _ \<Rightarrow> c)"

definition cstr :: "'c::zero list \<Rightarrow> 'c list" where
  "cstr str = takeWhile (\<lambda>c. c \<noteq> 0) str"

subsection \<open>Accessors\<close>

definition empty :: "'c TST \<Rightarrow> bool" where
  "empty t = (t = Empty)"

definition assert_not_empty :: "'c TST \<Rightarrow> error + unit" where
  "assert_not_empty t = (if empty t then Inl EmptyTreeError else Inr ())"

definition "value" :: "'c TST \<Rightarrow> error + 'c" where
  "value t = (case assert_not_empty t of Inl e \<Rightarrow> Inl e | Inr _ \<Rightarrow> Inr (root_value t))"

definition word :: "'c TST \<Rightarrow> error + bool" where
  "word t = (case assert_not_empty t of Inl e \<Rightarrow> Inl e | Inr _ \<Rightarrow> Inr (root_word t))"

definition left :: "'c TST \<Rightarrow> error + 'c TST" where
  "left t = (case assert_not_empty t of Inl e \<Rightarrow> Inl e | Inr _ \<Rightarrow> Inr (root_left t))"

definition center :: "'c TST \<Rightarrow> error + 'c TST" where
  "center t = (case assert_not_empty t of Inl e \<Rightarrow> Inl e | Inr _ \<Rightarrow> Inr (root_center t))"

definition right :: "'c TST \<Rightarrow> error + 'c TST" where
  "right t = (case assert_not_empty t of Inl e \<Rightarrow> Inl e | Inr _ \<Rightarrow> Inr (root_right t))"

subsection \<open>Construction\<close>

text \<open>\<^verbatim>\<open>TST(const C *str)\<close>: the tree that is one path.\<close>

function from_cstr :: "'c::zero list \<Rightarrow> 'c TST" where
  "from_cstr str =
     (if deref str = 0 then Empty
      else Node (deref str) (deref (tl str) = 0) Empty (from_cstr (tl str)) Empty)"
  by pat_completeness auto
termination
  by (relation "measure length") (auto simp: deref_def split: list.splits)

declare from_cstr.simps [simp del]

text \<open>\<^verbatim>\<open>TST(const std::basic_string<C> &str)\<close> delegates through \<^verbatim>\<open>c_str()\<close>.\<close>

definition from_string :: "'c::zero list \<Rightarrow> 'c TST" where
  "from_string str = from_cstr str"

subsection \<open>Failure propagation\<close>

text \<open>
  An accessor that throws ends the whole expression around it: \<open>bind m f\<close> runs \<open>f\<close> on
  the result of \<open>m\<close> unless \<open>m\<close> threw.
\<close>

definition bind :: "error + 'a \<Rightarrow> ('a \<Rightarrow> error + 'b) \<Rightarrow> error + 'b" where
  "bind m f = (case m of Inl e \<Rightarrow> Inl e | Inr x \<Rightarrow> f x)"

lemma bind_cong [fundef_cong]:
  "m = m' \<Longrightarrow> (\<And>x. m' = Inr x \<Longrightarrow> f x = f' x) \<Longrightarrow> bind m f = bind m' f'"
  by (cases m') (auto simp: bind_def)

lemma accessor_sizes:
  "left t = Inr l \<Longrightarrow> size l < size t"
  "center t = Inr c \<Longrightarrow> size c < size t"
  "right t = Inr r \<Longrightarrow> size r < size t"
  by (cases t; simp add: left_def center_def right_def assert_not_empty_def empty_def; fastforce)+

subsection \<open>Insertion: \<^verbatim>\<open>operator+\<close>\<close>

function insert_cstr :: "'c::{zero,linorder} TST \<Rightarrow> 'c list \<Rightarrow> error + 'c TST" where
  "insert_cstr t str =
     (if deref str = 0 then Inr t
      else if empty t then Inr (from_cstr str)
      else bind (value t) (\<lambda>v.
        if deref str > v then
          bind (value t) (\<lambda>v1. bind (word t) (\<lambda>w. bind (left t) (\<lambda>l. bind (center t) (\<lambda>c.
          bind (right t) (\<lambda>r. bind (insert_cstr r str) (\<lambda>r'.
            Inr (Node v1 w l c r')))))))
        else bind (value t) (\<lambda>v'.
        if deref str < v' then
          bind (value t) (\<lambda>v1. bind (word t) (\<lambda>w. bind (left t) (\<lambda>l.
          bind (insert_cstr l str) (\<lambda>l'. bind (center t) (\<lambda>c. bind (right t) (\<lambda>r.
            Inr (Node v1 w l' c r)))))))
        else
          bind (word t) (\<lambda>w. bind (left t) (\<lambda>l. bind (center t) (\<lambda>c.
          bind (insert_cstr c (tl str)) (\<lambda>c'. bind (right t) (\<lambda>r.
            Inr (Node (deref str) (w \<or> deref (tl str) = 0) l c' r)))))))))"
  by pat_completeness auto
termination
  by (relation "measure (\<lambda>(t, str). size t)") (auto simp: accessor_sizes)

declare insert_cstr.simps [simp del]

text \<open>\<^verbatim>\<open>operator+(const std::basic_string<C> &str)\<close> delegates through \<^verbatim>\<open>c_str()\<close>.\<close>

definition insert_string :: "'c::{zero,linorder} TST \<Rightarrow> 'c list \<Rightarrow> error + 'c TST" where
  "insert_string t str = insert_cstr t str"

subsection \<open>Prefix search and the queries built on it\<close>

function prefix_search ::
  "'c::{zero,linorder} TST \<Rightarrow> 'c list \<Rightarrow> nat \<Rightarrow> 'c TST \<Rightarrow> error + (nat \<times> 'c TST)" where
  "prefix_search t str acc parent =
     (if empty t \<or> deref str = 0 then Inr (acc, parent)
      else bind (value t) (\<lambda>v.
        if v > deref str then
          bind (left t) (\<lambda>l. prefix_search l str acc t)
        else bind (value t) (\<lambda>v'.
        if v' < deref str then
          bind (right t) (\<lambda>r. prefix_search r str acc t)
        else
          bind (center t) (\<lambda>c. prefix_search c (tl str) (acc + 1) t))))"
  by pat_completeness auto
termination
  by (relation "measure (\<lambda>(t, str, acc, parent). size t)") (auto simp: accessor_sizes)

declare prefix_search.simps [simp del]

text \<open>
  \<^verbatim>\<open>exist\<close> and \<^verbatim>\<open>prefix\<close> take a \<^verbatim>\<open>std::basic_string\<close>: the search runs on its
  \<^verbatim>\<open>c_str()\<close>, the comparison and the \<^verbatim>\<open>substr\<close> use its \<^verbatim>\<open>length()\<close>.
\<close>

definition exist :: "'c::{zero,linorder} TST \<Rightarrow> 'c list \<Rightarrow> error + bool" where
  "exist t str =
     bind (prefix_search t str 0 Empty) (\<lambda>(len, node).
       if len = length str \<and> \<not> empty node then word node else Inr False)"

definition prefix :: "'c::{zero,linorder} TST \<Rightarrow> 'c list \<Rightarrow> error + 'c list" where
  "prefix t str =
     bind (prefix_search t str 0 Empty) (\<lambda>r. Inr (take (fst r) str))"

subsection \<open>Fold and size\<close>

text \<open>\<^verbatim>\<open>Detail::fold\<close> over an iterator range, here the list of the range's elements.\<close>

fun Detail_fold :: "'a list \<Rightarrow> 'acc \<Rightarrow> ('acc \<Rightarrow> 'a \<Rightarrow> 'acc) \<Rightarrow> 'acc" where
  "Detail_fold [] acc functor = acc"
| "Detail_fold (x # xs) acc functor = Detail_fold xs (functor acc x) functor"

lemma Detail_fold_cong [fundef_cong]:
  "xs = ys \<Longrightarrow> a = b \<Longrightarrow> (\<And>acc x. x \<in> set ys \<Longrightarrow> f acc x = g acc x)
     \<Longrightarrow> Detail_fold xs a f = Detail_fold ys b g"
  by (induction ys arbitrary: xs a b) auto

function fold_tst :: "'c TST \<Rightarrow> 'acc \<Rightarrow> ('acc \<Rightarrow> 'c TST \<Rightarrow> 'acc) \<Rightarrow> 'acc" where
  "fold_tst t acc functor =
     (if empty t then acc
      else
        let children = [root_left t, root_center t, root_right t];
            reduced = Detail_fold children acc (\<lambda>a t'. fold_tst t' a functor)
        in functor reduced t)"
  by pat_completeness auto
termination
  by (relation "measure (\<lambda>(t, acc, functor). size t)")
     (auto simp: empty_def, (case_tac t; simp)+)

declare fold_tst.simps [simp del]

text \<open>
  \<^verbatim>\<open>size()\<close> counts in \<^verbatim>\<open>size_t\<close>; a tree has fewer nodes than the address space has
  bytes, so the count cannot wrap and is a natural number here.
\<close>

definition size_tst :: "'c TST \<Rightarrow> nat" where
  "size_tst t = fold_tst t 0 (\<lambda>acc _. acc + 1)"


subsection \<open>The default symbol type\<close>

text \<open>
  \<^verbatim>\<open>TST<>\<close> is \<^verbatim>\<open>TST<char>\<close>. The terminator is the character with code 0; characters
  are ordered by their codes, which is the order of \<^verbatim>\<open>char\<close> on the 7-bit characters
  whether \<^verbatim>\<open>char\<close> is signed or not.
\<close>

instantiation char :: zero
begin
definition zero_char :: char where "zero_char = CHR 0x00"
instance ..
end


subsection \<open>The contracts in the words of the specification\<close>

text \<open>
  Construction from a sequence: \<open>tree(S)\<close> is empty if \<open>S\<close> is empty; otherwise a node
  holding \<open>S[0]\<close>, with \<open>isWord = (S has length 1)\<close>, \<open>left = empty\<close>,
  \<open>center = tree(S[1:])\<close>, \<open>right = empty\<close>.
\<close>

fun tree_spec :: "'c list \<Rightarrow> 'c TST" where
  "tree_spec [] = Empty"
| "tree_spec (c # S) = Node c (length (c # S) = 1) Empty (tree_spec S) Empty"

text \<open>
  Insertion: unchanged for the empty sequence; \<open>tree(S)\<close> for the empty tree; otherwise
  by the comparison of the first symbol \<open>c\<close> with the root's value \<open>v\<close>.
\<close>

fun insert_spec :: "'c::linorder TST \<Rightarrow> 'c list \<Rightarrow> 'c TST" where
  "insert_spec t [] = t"
| "insert_spec Empty (c # S) = tree_spec (c # S)"
| "insert_spec (Node v w l m r) (c # S) =
     (if c > v then Node v w l m (insert_spec r (c # S))
      else if c < v then Node v w (insert_spec l (c # S)) m r
      else Node v (w \<or> length (c # S) = 1) l (insert_spec m S) r)"


text \<open>
  Prefix search in the words of the specification: at an empty tree or an exhausted query
  it reports the symbols matched so far and the last non-empty tree visited (the parent,
  or the current tree itself if that is non-empty); otherwise it goes left or right on a
  mismatch and into the center, counting one symbol, on a match.
\<close>

fun prefix_search_spec :: "'c::linorder TST \<Rightarrow> 'c list \<Rightarrow> nat \<Rightarrow> 'c TST \<Rightarrow> nat \<times> 'c TST" where
  "prefix_search_spec Empty Q matched parent = (matched, parent)"
| "prefix_search_spec (Node v w l m r) [] matched parent = (matched, Node v w l m r)"
| "prefix_search_spec (Node v w l m r) (q # Q) matched parent =
     (if q < v then prefix_search_spec l (q # Q) matched (Node v w l m r)
      else if q > v then prefix_search_spec r (q # Q) matched (Node v w l m r)
      else prefix_search_spec m Q (matched + 1) (Node v w l m r))"

text \<open>
  The same descent, reporting the parent in every stopping case. \<open>matched\<close> is the
  \<^verbatim>\<open>size_t acc\<close> of the code; it grows by at most the length of the query, so it does
  not wrap and is a natural number here.
\<close>

fun descend :: "'c::linorder TST \<Rightarrow> 'c list \<Rightarrow> nat \<Rightarrow> 'c TST \<Rightarrow> nat \<times> 'c TST" where
  "descend Empty Q matched parent = (matched, parent)"
| "descend (Node v w l m r) [] matched parent = (matched, parent)"
| "descend (Node v w l m r) (q # Q) matched parent =
     (if q < v then descend l (q # Q) matched (Node v w l m r)
      else if q > v then descend r (q # Q) matched (Node v w l m r)
      else descend m Q (matched + 1) (Node v w l m r))"

text \<open>
  Membership as the data model words it: follow left and right while the value differs,
  the center when it matches, and end on a node whose word flag is set exactly when the
  sequence is used up.
\<close>

fun has_word :: "'c::linorder TST \<Rightarrow> 'c list \<Rightarrow> bool" where
  "has_word Empty S = False"
| "has_word (Node v w l m r) [] = False"
| "has_word (Node v w l m r) (c # S) =
     (if c < v then has_word l (c # S)
      else if c > v then has_word r (c # S)
      else if S = [] then w else has_word m S)"

subsection \<open>Trees that the interface builds\<close>

text \<open>
  The constructors that take fields are private: a client only gets trees from
  \<^verbatim>\<open>TST()\<close>, the constructors from a sequence, \<^verbatim>\<open>operator+\<close> and the child accessors.
  In each of them no node holds the terminator, and a node that ends no word has a center
  child.
\<close>

fun wf_tst :: "'c::zero TST \<Rightarrow> bool" where
  "wf_tst Empty = True"
| "wf_tst (Node v w l m r) = (v \<noteq> 0 \<and> (w \<or> \<not> empty m) \<and> wf_tst l \<and> wf_tst m \<and> wf_tst r)"

text \<open>The trees a client can hold, and the shape they all have.\<close>

inductive built :: "'c::{zero,linorder} TST \<Rightarrow> bool" where
  built_Empty: "built Empty"
| built_from_cstr: "built (from_cstr str)"
| built_insert: "built t \<Longrightarrow> insert_cstr t str = Inr t' \<Longrightarrow> built t'"
| built_left: "built t \<Longrightarrow> left t = Inr t' \<Longrightarrow> built t'"
| built_center: "built t \<Longrightarrow> center t = Inr t' \<Longrightarrow> built t'"
| built_right: "built t \<Longrightarrow> right t = Inr t' \<Longrightarrow> built t'"

subsection \<open>Stored sequences and shared prefixes\<close>

definition stored :: "'c::{zero,linorder} TST \<Rightarrow> 'c list \<Rightarrow> bool" where
  "stored t W = (exist t W = Inr True)"

definition agrees :: "nat \<Rightarrow> 'c list \<Rightarrow> 'c list \<Rightarrow> bool" where
  "agrees L W S = (L \<le> length W \<and> L \<le> length S \<and> take L W = take L S)"

definition longest_shared :: "'c::{zero,linorder} TST \<Rightarrow> 'c list \<Rightarrow> nat \<Rightarrow> bool" where
  "longest_shared t S n =
     ((\<exists>W. stored t W \<and> agrees n W S) \<and> (\<forall>L W. stored t W \<and> agrees L W S \<longrightarrow> L \<le> n))"

subsection \<open>Positions in a tree\<close>

text \<open>
  A position is the list of child links that leads to it from the root. \<open>on_path\<close>
  marks the positions at which \<^verbatim>\<open>operator+\<close> allocates a node: one per call that does
  not return \<^verbatim>\<open>*this\<close>, and one per node of the path that \<^verbatim>\<open>TST(str)\<close> builds at an
  empty tree.
\<close>

datatype dir = GoLeft | GoCenter | GoRight

fun subtree :: "'c TST \<Rightarrow> dir list \<Rightarrow> 'c TST" where
  "subtree t [] = t"
| "subtree Empty (d # p) = Empty"
| "subtree (Node v w l m r) (GoLeft # p) = subtree l p"
| "subtree (Node v w l m r) (GoCenter # p) = subtree m p"
| "subtree (Node v w l m r) (GoRight # p) = subtree r p"

fun fresh_path :: "'c::zero list \<Rightarrow> dir list \<Rightarrow> bool" where
  "fresh_path [] p = False"
| "fresh_path (c # s) [] = (c \<noteq> 0)"
| "fresh_path (c # s) (d # p) = (c \<noteq> 0 \<and> d = GoCenter \<and> fresh_path s p)"

fun on_path :: "'c::{zero,linorder} TST \<Rightarrow> 'c list \<Rightarrow> dir list \<Rightarrow> bool" where
  "on_path t [] p = False"
| "on_path Empty (c # s) p = fresh_path (c # s) p"
| "on_path (Node v w l m r) (c # s) [] = (c \<noteq> 0)"
| "on_path (Node v w l m r) (c # s) (d # p) =
     (c \<noteq> 0 \<and>
      (if c > v then d = GoRight \<and> on_path r (c # s) p
       else if c < v then d = GoLeft \<and> on_path l (c # s) p
       else d = GoCenter \<and> on_path m s p))"

text \<open>The nodes of a tree, children first: left, center, right, then the node itself.\<close>

fun postorder :: "'c TST \<Rightarrow> 'c TST list" where
  "postorder Empty = []"
| "postorder (Node v w l m r) = postorder l @ postorder m @ postorder r @ [Node v w l m r]"

fun positions :: "'c TST \<Rightarrow> dir list list" where
  "positions Empty = []"
| "positions (Node v w l m r) =
     map ((#) GoLeft) (positions l) @ map ((#) GoCenter) (positions m)
       @ map ((#) GoRight) (positions r) @ [[]]"

subsection \<open>The end-to-end scenario\<close>

definition scenario :: "error + char TST" where
  "scenario =
     bind (insert_string Empty ''category'') (\<lambda>t1.
     bind (insert_string t1 ''functor'') (\<lambda>t2.
     insert_string t2 ''theory''))"

section \<open>Basic equations of the embedding\<close>

lemma bind_simps [simp]:
  "bind (Inr x) f = f x"
  "bind (Inl e) f = Inl e"
  by (simp_all add: bind_def)

lemma deref_simps [simp]:
  "deref [] = 0"
  "deref (c # s) = c"
  by (simp_all add: deref_def)

lemma cstr_simps [simp]:
  "cstr [] = []"
  "cstr (c # s) = (if c = 0 then [] else c # cstr s)"
  by (simp_all add: cstr_def)

lemma empty_simps [simp]:
  "empty Empty"
  "\<not> empty (Node v w l c r)"
  by (simp_all add: empty_def)

lemma accessors_Empty [simp]:
  "value Empty = Inl EmptyTreeError"
  "word Empty = Inl EmptyTreeError"
  "left Empty = Inl EmptyTreeError"
  "center Empty = Inl EmptyTreeError"
  "right Empty = Inl EmptyTreeError"
  by (simp_all add: value_def word_def left_def center_def right_def assert_not_empty_def)

lemma accessors_Node [simp]:
  "value (Node v w l c r) = Inr v"
  "word (Node v w l c r) = Inr w"
  "left (Node v w l c r) = Inr l"
  "center (Node v w l c r) = Inr c"
  "right (Node v w l c r) = Inr r"
  by (simp_all add: value_def word_def left_def center_def right_def assert_not_empty_def)

lemma from_cstr_simps [simp]:
  "from_cstr [] = Empty"
  "from_cstr (c # s) =
     (if c = 0 then Empty else Node c (deref s = 0) Empty (from_cstr s) Empty)"
  by (simp_all add: from_cstr.simps [of "[]"] from_cstr.simps [of "c # s"])

lemma insert_cstr_Nil [simp]: "insert_cstr t [] = Inr t"
  by (simp add: insert_cstr.simps [of t "[]"])

lemma insert_cstr_Empty [simp]:
  "insert_cstr Empty str = Inr (from_cstr str)"
  by (cases str) (simp_all add: insert_cstr.simps [of Empty])

lemma insert_cstr_Node [simp]:
  "insert_cstr (Node v w l m r) (c # s) =
     (if c = 0 then Inr (Node v w l m r)
      else if c > v then bind (insert_cstr r (c # s)) (\<lambda>r'. Inr (Node v w l m r'))
      else if c < v then bind (insert_cstr l (c # s)) (\<lambda>l'. Inr (Node v w l' m r))
      else bind (insert_cstr m s) (\<lambda>m'. Inr (Node c (w \<or> deref s = 0) l m' r)))"
  by (simp add: insert_cstr.simps [of "Node v w l m r" "c # s"])

lemma prefix_search_Empty [simp]: "prefix_search Empty str acc parent = Inr (acc, parent)"
  by (simp add: prefix_search.simps [of Empty])

lemma prefix_search_Nil [simp]: "prefix_search t [] acc parent = Inr (acc, parent)"
  by (simp add: prefix_search.simps [of t "[]"])

lemma prefix_search_Node [simp]:
  "prefix_search (Node v w l m r) (c # s) acc parent =
     (if c = 0 then Inr (acc, parent)
      else if v > c then prefix_search l (c # s) acc (Node v w l m r)
      else if v < c then prefix_search r (c # s) acc (Node v w l m r)
      else prefix_search m s (acc + 1) (Node v w l m r))"
  by (simp add: prefix_search.simps [of "Node v w l m r" "c # s"])

lemma fold_tst_Empty [simp]: "fold_tst Empty acc f = acc"
  by (simp add: fold_tst.simps [of Empty])

lemma fold_tst_Node [simp]:
  "fold_tst (Node v w l c r) acc f =
     f (fold_tst r (fold_tst c (fold_tst l acc f) f) f) (Node v w l c r)"
  by (simp add: fold_tst.simps [of "Node v w l c r"])

lemma bind_eq_Inr: "bind m f = Inr y \<longleftrightarrow> (\<exists>x. m = Inr x \<and> f x = Inr y)"
  by (cases m) simp_all

section \<open>Construction and insertion against their contracts\<close>

lemma cstr_no_zero: "0 \<notin> set (cstr str)"
  by (induction str) auto

lemma cstr_id: "0 \<notin> set S \<Longrightarrow> cstr S = S"
  by (induction S) auto

lemma deref_zero_iff: "deref str = 0 \<longleftrightarrow> cstr str = []"
  by (cases str) auto

lemma from_cstr_refines: "from_cstr str = tree_spec (cstr str)"
  by (induction str) (auto simp: deref_zero_iff)

lemma insert_cstr_refines: "insert_cstr t str = Inr (insert_spec t (cstr str))"
proof (induction t arbitrary: str)
  case Empty
  show ?case by (cases "cstr str") (simp_all add: from_cstr_refines)
next
  case (Node v w l m r)
  show ?case
  proof (cases str)
    case Nil
    then show ?thesis by simp
  next
    case (Cons c s)
    have "insert_cstr r (c # s) = Inr (insert_spec r (cstr (c # s)))"
         "insert_cstr l (c # s) = Inr (insert_spec l (cstr (c # s)))"
         "insert_cstr m s = Inr (insert_spec m (cstr s))"
      by (rule Node.IH)+
    with Cons show ?thesis by (auto simp: deref_zero_iff)
  qed
qed

lemma length_cstr: "length (cstr str) \<le> length str"
  by (simp add: cstr_def length_takeWhile_le)

lemma cstr_full: "length (cstr str) = length str \<longleftrightarrow> 0 \<notin> set str"
  by (induction str) (auto)

lemma insert_string_total: "insert_string t str = Inr (insert_spec t (cstr str))"
  by (simp add: insert_string_def insert_cstr_refines)

lemma insert_string_proper:
  "0 \<notin> set S \<Longrightarrow> insert_string t S = Inr (insert_spec t S)"
  by (simp add: insert_string_def insert_cstr_refines cstr_id)

section \<open>Prefix search and membership\<close>

lemma descend_Nil [simp]: "descend t [] matched parent = (matched, parent)"
  by (cases t) simp_all

lemma prefix_search_refines:
  "prefix_search t str acc parent = Inr (descend t (cstr str) acc parent)"
proof (induction t arbitrary: str acc parent)
  case Empty
  show ?case by simp
next
  case (Node v w l m r)
  show ?case
  proof (cases str)
    case Nil
    then show ?thesis by simp
  next
    case (Cons c s)
    then show ?thesis by (auto simp: Node.IH)
  qed
qed

lemma descend_bounds:
  "matched \<le> fst (descend t Q matched parent) \<and>
   fst (descend t Q matched parent) \<le> matched + length Q"
proof (induction t Q matched parent rule: descend.induct)
  case (3 v w l m r q Q matched parent)
  then show ?case by (auto simp: le_Suc_eq)
qed simp_all

lemma descend_has_word:
  "Q \<noteq> [] \<Longrightarrow>
   (case descend t Q matched parent of
      (n, node) \<Rightarrow> n = matched + length Q \<and> \<not> empty node \<and> root_word node)
   = has_word t Q"
proof (induction t Q matched parent rule: descend.induct)
  case (1 Q matched parent)
  then show ?case by simp
next
  case (2 v w l m r matched parent)
  then show ?case by simp
next
  case (3 v w l m r q Q matched parent)
  show ?case
  proof (cases "Q = []")
    case True
    then show ?thesis using 3 by auto
  next
    case False
    then show ?thesis using 3 by auto
  qed
qed

lemma word_unfold: "\<not> empty node \<Longrightarrow> word node = Inr (root_word node)"
  by (cases node) simp_all

lemma exist_has_word: "exist t str = Inr (0 \<notin> set str \<and> has_word t str)"
proof (cases "0 \<in> set str")
  case True
  then have "length (cstr str) < length str"
    using length_cstr [of str] cstr_full [of str] by linarith
  then have "fst (descend t (cstr str) 0 Empty) \<noteq> length str"
    using descend_bounds [where t = t and Q = "cstr str" and matched = 0 and parent = Empty] by linarith
  with True show ?thesis
    by (auto simp: exist_def prefix_search_refines split: prod.splits)
next
  case False
  then have c: "cstr str = str" by (rule cstr_id)
  show ?thesis
  proof (cases "str = []")
    case True
    then show ?thesis by (cases t) (simp_all add: exist_def)
  next
    case ne: False
    show ?thesis
      using descend_has_word [OF ne, where t = t and matched = 0 and parent = Empty] False
      by (auto simp: exist_def prefix_search_refines c word_unfold split: prod.splits)
  qed
qed

lemma has_word_tree_spec: "S \<noteq> [] \<Longrightarrow> has_word (tree_spec S) S"
  by (induction S) auto

lemma has_word_insert_spec: "has_word t Q \<Longrightarrow> has_word (insert_spec t S) Q"
proof (induction t S arbitrary: Q rule: insert_spec.induct)
  case (1 t)
  then show ?case by simp
next
  case (2 c S)
  then show ?case by simp
next
  case (3 v w l m r c S)
  then show ?case by (cases Q) (auto split: if_splits)
qed

lemma has_word_insert_spec_self: "S \<noteq> [] \<Longrightarrow> has_word (insert_spec t S) S"
proof (induction t S rule: insert_spec.induct)
  case (2 c S)
  then show ?case using has_word_tree_spec [of "c # S"] by simp
next
  case (3 v w l m r c S)
  then show ?case by auto
qed simp

section \<open>The shape of built trees\<close>

lemma wf_tst_tree_spec: "0 \<notin> set S \<Longrightarrow> wf_tst (tree_spec S)"
  by (induction S) (auto simp: empty_def neq_Nil_conv)

lemma wf_tst_insert_spec: "wf_tst t \<Longrightarrow> 0 \<notin> set S \<Longrightarrow> wf_tst (insert_spec t S)"
proof (induction t S rule: insert_spec.induct)
  case (2 c S)
  then show ?case using wf_tst_tree_spec [of "c # S"] by simp
next
  case (3 v w l m r c S)
  then show ?case by (cases S; cases m) (auto simp: empty_def)
qed simp

lemma wf_tst_from_cstr: "wf_tst (from_cstr str)"
  by (simp add: from_cstr_refines wf_tst_tree_spec cstr_no_zero)

lemma wf_tst_insert_cstr: "wf_tst t \<Longrightarrow> insert_cstr t str = Inr t' \<Longrightarrow> wf_tst t'"
  by (auto simp: insert_cstr_refines wf_tst_insert_spec cstr_no_zero)

lemma wf_tst_children:
  "wf_tst t \<Longrightarrow> left t = Inr t' \<Longrightarrow> wf_tst t'"
  "wf_tst t \<Longrightarrow> center t = Inr t' \<Longrightarrow> wf_tst t'"
  "wf_tst t \<Longrightarrow> right t = Inr t' \<Longrightarrow> wf_tst t'"
  by (cases t; simp; fail)+

section \<open>The longest shared prefix\<close>

lemma has_word_nonempty: "has_word t W \<Longrightarrow> W \<noteq> []"
  by (cases t) auto

lemma has_word_no_zero: "wf_tst t \<Longrightarrow> has_word t W \<Longrightarrow> 0 \<notin> set W"
proof (induction t W rule: has_word.induct)
  case (3 v w l m r c S)
  then show ?case by (auto split: if_splits)
qed simp_all

lemma wf_tst_has_word: "wf_tst t \<Longrightarrow> \<not> empty t \<Longrightarrow> \<exists>W. has_word t W"
proof (induction t)
  case Empty
  then show ?case by simp
next
  case (Node v w l m r)
  show ?case
  proof (cases w)
    case True
    then have "has_word (Node v w l m r) [v]" by simp
    then show ?thesis ..
  next
    case False
    with Node.prems have "\<not> empty m" "wf_tst m" by auto
    then obtain W where W: "has_word m W" using Node.IH(2) by blast
    then have "W \<noteq> []" by (rule has_word_nonempty)
    with W have "has_word (Node v w l m r) (v # W)" by simp
    then show ?thesis ..
  qed
qed

lemma descend_upper:
  "has_word t W \<Longrightarrow> L \<le> length W \<Longrightarrow> L \<le> length Q \<Longrightarrow> take L W = take L Q
     \<Longrightarrow> matched + L \<le> fst (descend t Q matched parent)"
proof (induction t Q matched parent arbitrary: W L rule: descend.induct)
  case (1 Q matched parent)
  then show ?case by simp
next
  case (2 v w l m r matched parent)
  then show ?case by simp
next
  case (3 v w l m r q Q matched parent)
  let ?t = "Node v w l m r"
  show ?case
  proof (cases L)
    case 0
    then show ?thesis using descend_bounds [where t = ?t and Q = "q # Q"] by simp
  next
    case (Suc L')
    with "3.prems" obtain W' where W: "W = q # W'" and t: "take L' W' = take L' Q"
      and l: "L' \<le> length W'" "L' \<le> length Q"
      by (cases W) auto
    show ?thesis
    proof (cases "q < v")
      case True
      with "3.prems" W have "has_word l W" by simp
      from "3.IH"(1) [OF True this "3.prems"(2,3,4)] True show ?thesis by simp
    next
      case nl: False
      show ?thesis
      proof (cases "q > v")
        case True
        with "3.prems" W nl have "has_word r W" by simp
        from "3.IH"(2) [OF nl True this "3.prems"(2,3,4)] nl True show ?thesis by simp
      next
        case ng: False
        show ?thesis
        proof (cases "W' = []")
          case True
          with l have "L' = 0" by simp
          with Suc nl ng show ?thesis
            using descend_bounds [where t = m and Q = Q and matched = "matched + 1"] by simp
        next
          case False
          with "3.prems" W nl ng have "has_word m W'" by simp
          from "3.IH"(3) [OF nl ng this l t] Suc nl ng show ?thesis by simp
        qed
      qed
    qed
  qed
qed

lemma descend_lower:
  "wf_tst t \<Longrightarrow> \<not> empty t \<Longrightarrow>
     \<exists>W. has_word t W \<and> fst (descend t Q matched parent) - matched \<le> length W
        \<and> take (fst (descend t Q matched parent) - matched) W
          = take (fst (descend t Q matched parent) - matched) Q"
proof (induction t Q matched parent rule: descend.induct)
  case (1 Q matched parent)
  then show ?case by simp
next
  case (2 v w l m r matched parent)
  then show ?case using wf_tst_has_word [of "Node v w l m r"] by auto
next
  case (3 v w l m r q Q matched parent)
  let ?t = "Node v w l m r"
  let ?k = "fst (descend ?t (q # Q) matched parent) - matched"
  show ?case
  proof (cases "?k = 0")
    case True
    from wf_tst_has_word [OF "3.prems"] obtain W where "has_word ?t W" ..
    with True show ?thesis by auto
  next
    case k: False
    show ?thesis
    proof (cases "q < v")
      case True
      then have d: "descend ?t (q # Q) matched parent = descend l (q # Q) matched ?t" by simp
      with k have "\<not> empty l" by (cases l) auto
      moreover from "3.prems" have "wf_tst l" by simp
      ultimately obtain W where W: "has_word l W" "?k \<le> length W" "take ?k W = take ?k (q # Q)"
        using "3.IH"(1) [OF True] d by auto
      with k obtain W' where "W = q # W'" by (cases W; cases ?k) auto
      with W True have "has_word ?t W" by simp
      with W show ?thesis by blast
    next
      case nl: False
      show ?thesis
      proof (cases "q > v")
        case True
        with nl have d: "descend ?t (q # Q) matched parent = descend r (q # Q) matched ?t" by simp
        with k have "\<not> empty r" by (cases r) auto
        moreover from "3.prems" have "wf_tst r" by simp
        ultimately obtain W where W: "has_word r W" "?k \<le> length W" "take ?k W = take ?k (q # Q)"
          using "3.IH"(2) [OF nl True] d by auto
        with k obtain W' where "W = q # W'" by (cases W; cases ?k) auto
        with W True nl have "has_word ?t W" by simp
        with W show ?thesis by blast
      next
        case ng: False
        with nl have d: "descend ?t (q # Q) matched parent = descend m Q (matched + 1) ?t" by simp
        let ?j = "fst (descend m Q (matched + 1) ?t) - (matched + 1)"
        have "matched + 1 \<le> fst (descend m Q (matched + 1) ?t)"
          using descend_bounds [where t = m and Q = Q and matched = "matched + 1" and parent = ?t]
          by simp
        then have kj: "?k = Suc ?j"
          unfolding d by linarith
        show ?thesis
        proof (cases "empty m")
          case True
          then have "m = Empty" by (simp add: empty_def)
          with "3.prems" have w by simp
          with nl ng have "has_word ?t [q]" by simp
          moreover from \<open>m = Empty\<close> kj have "?k = 1" by simp
          ultimately show ?thesis by (intro exI [of _ "[q]"]) simp
        next
          case False
          moreover from "3.prems" have "wf_tst m" by simp
          ultimately obtain W where W: "has_word m W" "?j \<le> length W" "take ?j W = take ?j Q"
            using "3.IH"(3) [OF nl ng] by blast
          from W(1) have "W \<noteq> []" by (rule has_word_nonempty)
          with W nl ng have "has_word ?t (q # W)" by simp
          moreover from W kj have "?k \<le> length (q # W)" "take ?k (q # W) = take ?k (q # Q)"
            by simp_all
          ultimately show ?thesis by blast
        qed
      qed
    qed
  qed
qed

lemma stored_has_word: "stored t W \<longleftrightarrow> 0 \<notin> set W \<and> has_word t W"
  by (simp add: stored_def exist_has_word)

lemma agrees_cstr: "0 \<notin> set W \<Longrightarrow> agrees L W S \<Longrightarrow> agrees L W (cstr S)"
proof (induction S arbitrary: L W)
  case Nil
  then show ?case by simp
next
  case (Cons c S)
  show ?case
  proof (cases L)
    case 0
    then show ?thesis by (simp add: agrees_def)
  next
    case (Suc L')
    with Cons.prems obtain W' where W: "W = c # W'" and a: "agrees L' W' S"
      by (cases W) (auto simp: agrees_def)
    with Cons.prems have "c \<noteq> 0" "0 \<notin> set W'" by auto
    with Cons.IH [OF _ a] W Suc show ?thesis by (simp add: agrees_def)
  qed
qed

lemma take_cstr: "n \<le> length (cstr S) \<Longrightarrow> take n (cstr S) = take n S"
proof (induction S arbitrary: n)
  case (Cons c S)
  then show ?case by (cases n) (auto split: if_splits)
qed simp

lemma prefix_longest:
  assumes "wf_tst t"
  shows "\<exists>n. n \<le> length S \<and> prefix t S = Inr (take n S)
           \<and> (if empty t then n = 0 else longest_shared t S n)"
proof -
  let ?n = "fst (descend t (cstr S) 0 Empty)"
  have n: "?n \<le> length (cstr S)"
    using descend_bounds [where t = t and Q = "cstr S" and matched = 0 and parent = Empty]
    by simp
  then have nS: "?n \<le> length S" using length_cstr [of S] by linarith
  have p: "prefix t S = Inr (take ?n S)" by (simp add: prefix_def prefix_search_refines)
  show ?thesis
  proof (cases "empty t")
    case True
    then have "?n = 0" by (simp add: empty_def)
    with p nS True show ?thesis by auto
  next
    case False
    from descend_lower [OF assms False, of "cstr S" 0 Empty]
    obtain W where W: "has_word t W" "?n \<le> length W" "take ?n W = take ?n (cstr S)"
      by auto
    from assms W(1) have z: "0 \<notin> set W" by (rule has_word_no_zero)
    from W n nS have "agrees ?n W S" by (simp add: agrees_def take_cstr)
    with z W(1) have ex: "\<exists>W. stored t W \<and> agrees ?n W S" by (auto simp: stored_has_word)
    have "L \<le> ?n" if "stored t W'" "agrees L W' S" for L W'
    proof -
      from that have m: "has_word t W'" and "0 \<notin> set W'" by (simp_all add: stored_has_word)
      with that(2) have "agrees L W' (cstr S)" by (simp add: agrees_cstr)
      then have "L \<le> length W'" "L \<le> length (cstr S)" "take L W' = take L (cstr S)"
        by (simp_all add: agrees_def)
      from descend_upper [OF m this, of 0 Empty] show ?thesis by simp
    qed
    with ex have "longest_shared t S ?n" by (auto simp: longest_shared_def)
    with p nS False show ?thesis by auto
  qed
qed

section \<open>Positions, the insertion path and the fold order\<close>

lemma foldl_count: "foldl (\<lambda>acc _. Suc acc) n xs = n + length xs"
  by (induction xs arbitrary: n) simp_all

lemma subtree_Empty [simp]: "subtree Empty p = Empty"
  by (cases p) simp_all

lemma subtree_from_cstr: "\<not> fresh_path str p \<Longrightarrow> subtree (from_cstr str) p = Empty"
proof (induction str p rule: fresh_path.induct)
  case (3 c s d p)
  then show ?case by (cases d) auto
qed auto

lemma subtree_insert_cstr:
  "\<not> on_path t str p \<Longrightarrow> insert_cstr t str = Inr t' \<Longrightarrow> subtree t' p = subtree t p"
proof (induction t str p arbitrary: t' rule: on_path.induct)
  case (1 t p)
  then show ?case by simp
next
  case (2 c s p)
  then show ?case using subtree_from_cstr [of "c # s" p] by auto
next
  case (3 v w l m r c s)
  then show ?case by simp
next
  case (4 v w l m r c s d p)
  show ?case
  proof (cases "c = 0")
    case True
    with "4.prems" show ?thesis by simp
  next
    case nz: False
    show ?thesis
    proof (cases "c > v")
      case True
      with nz "4.prems" obtain r' where r': "insert_cstr r (c # s) = Inr r'"
        and t': "t' = Node v w l m r'"
        by (auto simp: bind_eq_Inr)
      show ?thesis
      proof (cases d)
        case GoRight
        with "4.prems" nz True have "\<not> on_path r (c # s) p" by simp
        from "4.IH"(1) [OF True this r'] GoRight t' show ?thesis by simp
      qed (simp_all add: t')
    next
      case ng: False
      show ?thesis
      proof (cases "c < v")
        case True
        with nz ng "4.prems" obtain l' where l': "insert_cstr l (c # s) = Inr l'"
          and t': "t' = Node v w l' m r"
          by (auto simp: bind_eq_Inr)
        show ?thesis
        proof (cases d)
          case GoLeft
          with "4.prems" nz ng True have "\<not> on_path l (c # s) p" by simp
          from "4.IH"(2) [OF ng True this l'] GoLeft t' show ?thesis by simp
        qed (simp_all add: t')
      next
        case nl: False
        with nz ng "4.prems" obtain m' where m': "insert_cstr m s = Inr m'"
          and t': "t' = Node c (w \<or> deref s = 0) l m' r"
          by (auto simp: bind_eq_Inr)
        show ?thesis
        proof (cases d)
          case GoCenter
          with "4.prems" nz ng nl have "\<not> on_path m s p" by simp
          from "4.IH"(3) [OF ng nl this m'] GoCenter t' show ?thesis by simp
        qed (simp_all add: t')
      qed
    qed
  qed
qed

lemma on_path_node: "on_path t str p \<Longrightarrow> insert_cstr t str = Inr t' \<Longrightarrow> \<not> empty (subtree t' p)"
proof -
  have fresh: "fresh_path s q \<Longrightarrow> \<not> empty (subtree (from_cstr s) q)" for s :: "'a list" and q
    by (induction s q rule: fresh_path.induct) auto
  show "on_path t str p \<Longrightarrow> insert_cstr t str = Inr t' \<Longrightarrow> \<not> empty (subtree t' p)"
  proof (induction t str p arbitrary: t' rule: on_path.induct)
    case (2 c s p)
    then show ?case using fresh [of "c # s" p] by auto
  next
    case (4 v w l m r c s d p)
    then show ?case by (auto simp: insert_cstr_refines split: if_splits)
  qed (auto simp: insert_cstr_refines split: if_splits)
qed

lemma fresh_path_zero [simp]: "\<not> fresh_path (0 # s) q"
  by (cases q) simp_all

lemma on_path_zero [simp]: "\<not> on_path t (0 # s) q"
  by (cases t; cases q) simp_all

lemma fresh_path_prefix: "fresh_path s (p @ q) \<Longrightarrow> fresh_path s p"
  by (induction s p rule: fresh_path.induct) auto

lemma on_path_prefix: "on_path t s (p @ q) \<Longrightarrow> on_path t s p"
proof (induction t s p rule: on_path.induct)
  case (2 c s p)
  then show ?case using fresh_path_prefix [of "c # s" p q] by simp
next
  case (4 v w l m r c s d p)
  then show ?case by (auto split: if_splits)
qed auto

lemma fresh_path_chain:
  "fresh_path s p \<Longrightarrow> fresh_path s q \<Longrightarrow> length p \<le> length q \<Longrightarrow> take (length p) q = p"
proof (induction s p arbitrary: q rule: fresh_path.induct)
  case (3 c s d p)
  then show ?case by (cases q) auto
qed auto

lemma on_path_chain:
  "on_path t s p \<Longrightarrow> on_path t s q \<Longrightarrow> length p \<le> length q \<Longrightarrow> take (length p) q = p"
proof (induction t s p arbitrary: q rule: on_path.induct)
  case (2 c s p)
  then show ?case using fresh_path_chain [of "c # s" p q] by simp
next
  case (4 v w l m r c s d p)
  then show ?case by (cases q) (auto split: if_splits)
qed auto

lemma on_path_root: "on_path t s [] \<longleftrightarrow> cstr s \<noteq> []"
  by (cases t; cases s) auto

lemma wf_tst_subtree: "wf_tst t \<Longrightarrow> wf_tst (subtree t p)"
  by (induction t p rule: subtree.induct) auto

lemma built_wf_tst: "built t \<Longrightarrow> wf_tst t"
proof (induction rule: built.induct)
  case built_Empty
  show ?case by simp
next
  case (built_from_cstr str)
  show ?case by (rule wf_tst_from_cstr)
next
  case (built_insert t str t')
  then show ?case by (blast intro: wf_tst_insert_cstr)
next
  case (built_left t t')
  then show ?case by (blast intro: wf_tst_children)
next
  case (built_center t t')
  then show ?case by (blast intro: wf_tst_children)
next
  case (built_right t t')
  then show ?case by (blast intro: wf_tst_children)
qed

lemma Detail_fold_foldl: "Detail_fold xs acc g = foldl g acc xs"
  by (induction xs arbitrary: acc) simp_all

lemma fold_tst_postorder: "fold_tst t acc f = foldl f acc (postorder t)"
  by (induction t arbitrary: acc) simp_all

lemma postorder_positions: "postorder t = map (subtree t) (positions t)"
  by (induction t) (simp_all add: comp_def)

lemma distinct_positions: "distinct (positions t)"
  by (induction t) (auto simp: distinct_map)

lemma set_positions: "set (positions t) = {p. \<not> empty (subtree t p)}"
proof (induction t)
  case Empty
  show ?case by simp
next
  case (Node v w l m r)
  have "p \<in> set (positions (Node v w l m r)) \<longleftrightarrow> \<not> empty (subtree (Node v w l m r) p)" for p
  proof (cases p)
    case Nil
    then show ?thesis by simp
  next
    case (Cons d q)
    then show ?thesis using Node.IH by (cases d) auto
  qed
  then show ?case by blast
qed

lemma size_tst_count: "size_tst t = length (postorder t)"
proof -
  show ?thesis by (simp add: size_tst_def fold_tst_postorder foldl_count)
qed

section \<open>The claims\<close>

subsection \<open>C1: the recursive contract of insertion\<close>

text \<open>
  C1. \<^verbatim>\<open>TST(const C *str)\<close> and \<^verbatim>\<open>operator+(const C *str)\<close> meet the recursive contract,
  where \<open>S\<close> is the sequence that the argument denotes (its symbols in front of the
  terminator): construction yields \<open>tree(S)\<close>; insertion returns the tree unchanged for
  the empty \<open>S\<close>, \<open>tree(S)\<close> at the empty tree, and otherwise rebuilds the root with the
  right child, the left child or the center child replaced by the insertion there
  (\<open>c > v\<close>, \<open>c < v\<close>, \<open>c = v\<close>), the word flag becoming \<open>isWord \<or> |S| = 1\<close> in the
  last case. Insertion never throws.
\<close>

theorem insert_contract:
  "from_cstr str = tree_spec (cstr str) \<and> insert_cstr t str = Inr (insert_spec t (cstr str))"
  by (simp add: from_cstr_refines insert_cstr_refines)

subsection \<open>C2: an inserted sequence is a member\<close>

text \<open>
  C2 as stated, for every non-empty sequence, fails on a \<^verbatim>\<open>std::basic_string\<close> that
  holds the terminator: of \<^verbatim>\<open>"a\0b"\<close> only \<^verbatim>\<open>"a"\<close> is inserted, and \<^verbatim>\<open>exist\<close> compares
  the matched length 1 with \<^verbatim>\<open>length() = 3\<close>.
\<close>

theorem insert_then_exist_counterexample:
  "[CHR ''a'', 0, CHR ''b''] \<noteq> [] \<and>
   bind (insert_string Empty [CHR ''a'', 0, CHR ''b''])
        (\<lambda>t. exist t [CHR ''a'', 0, CHR ''b'']) = Inr False"
  by (simp add: insert_string_def exist_def zero_char_def)

text \<open>
  C2, amended. For every non-empty sequence \<open>S\<close> that does not hold the terminator
  symbol, inserting \<open>S\<close> into the empty tree yields a tree in which \<open>S\<close> is a member.
\<close>

theorem insert_then_exist:
  "S \<noteq> [] \<Longrightarrow> 0 \<notin> set S \<Longrightarrow> bind (insert_string Empty S) (\<lambda>t. exist t S) = Inr True"
  by (simp add: insert_string_total cstr_id exist_has_word has_word_insert_spec_self)

theorem insert_then_exist_witness:
  "''cat'' \<noteq> [] \<and> 0 \<notin> set ''cat'' \<and>
   bind (insert_string Empty ''cat'') (\<lambda>t. exist t ''cat'') = Inr True"
proof -
  have h: "''cat'' \<noteq> []" "0 \<notin> set ''cat''" by (simp_all add: zero_char_def)
  from insert_then_exist [OF h] h show ?thesis by simp
qed

subsection \<open>C3: insertion keeps every member\<close>

text \<open>
  C3. For every tree \<open>T\<close> and all sequences \<open>S\<close> and \<open>Q\<close>: if \<open>T.exist(Q)\<close> holds,
  then \<open>insert(T, S).exist(Q)\<close> holds.
\<close>

theorem insert_keeps_members:
  "exist t Q = Inr True \<Longrightarrow> bind (insert_string t S) (\<lambda>t'. exist t' Q) = Inr True"
  by (simp add: insert_string_total exist_has_word has_word_insert_spec)

theorem insert_keeps_members_witness:
  "exist (from_string ''cat'') ''cat'' = Inr True \<and>
   bind (insert_string (from_string ''cat'') ''car'') (\<lambda>t'. exist t' ''cat'') = Inr True"
proof -
  have h: "exist (from_string ''cat'') ''cat'' = Inr True"
    by (simp add: from_string_def exist_def zero_char_def)
  from insert_keeps_members [OF h] h show ?thesis by simp
qed

subsection \<open>C4: the longest shared prefix\<close>

text \<open>
  C4 as stated, for every tree, fails at the empty tree: it stores no sequence, so no
  length is one on which a stored sequence agrees with \<open>S\<close>, and \<^verbatim>\<open>prefix\<close> returns the
  empty sequence.
\<close>

theorem prefix_longest_shared_counterexample:
  "\<not> (\<exists>n. prefix Empty ''cat'' = Inr (take n ''cat'') \<and> longest_shared Empty ''cat'' n)"
  by (simp add: longest_shared_def stored_has_word)

text \<open>
  C4, amended. For every tree \<open>T\<close> that the interface builds and every sequence \<open>S\<close>,
  \<open>T.prefix(S)\<close> is a prefix of \<open>S\<close>; for a non-empty \<open>T\<close> its length is the largest
  \<open>L\<close> such that some sequence stored in \<open>T\<close> agrees with \<open>S\<close> on its first \<open>L\<close>
  symbols, and for the empty \<open>T\<close> it is the empty sequence. (Every tree that the interface
  builds has the shape \<open>wf_tst\<close>, by \<open>built_wf_tst\<close>.)
\<close>

theorem prefix_longest_shared:
  "wf_tst t \<Longrightarrow> \<exists>n. n \<le> length S \<and> prefix t S = Inr (take n S)
           \<and> (if empty t then n = 0 else longest_shared t S n)"
  by (rule prefix_longest)

theorem prefix_longest_shared_witness:
  "wf_tst (from_string ''cat'') \<and>
   (\<exists>n. n \<le> length ''car'' \<and> prefix (from_string ''cat'') ''car'' = Inr (take n ''car'')
      \<and> (if empty (from_string ''cat'') then n = 0
          else longest_shared (from_string ''cat'') ''car'' n))"
proof -
  have h: "wf_tst (from_string ''cat'')"
    by (simp add: from_string_def zero_char_def empty_def)
  from prefix_longest_shared [OF h, of "''car''"] h show ?thesis by blast
qed

subsection \<open>C5: insertion changes nothing off its path\<close>

text \<open>
  C5. For every tree \<open>T\<close>, sequence \<open>S\<close> and position \<open>p\<close> that is not on the insertion
  path of \<open>S\<close> in \<open>T\<close>, the subtree of \<open>insert(T, S)\<close> at \<open>p\<close> is the subtree of \<open>T\<close>
  at \<open>p\<close>. The positions on the path are one chain from the root (\<open>on_path_prefix\<close>,
  \<open>on_path_chain\<close>), each holding a node of the result (\<open>on_path_node\<close>). \<open>T\<close> itself is
  a value that \<^verbatim>\<open>operator+\<close>, a \<^verbatim>\<open>const\<close> member over \<^verbatim>\<open>const\<close> fields, only reads.
\<close>

theorem insert_frame:
  "\<not> on_path t str p \<Longrightarrow>
     bind (insert_cstr t str) (\<lambda>t'. Inr (subtree t' p)) = Inr (subtree t p)"
  using subtree_insert_cstr [of t str p] by (simp add: insert_cstr_refines)

theorem insert_frame_witness:
  "\<not> on_path (insert_spec (from_cstr ''cat'') ''dog'') ''cab'' [GoRight] \<and>
   bind (insert_cstr (insert_spec (from_cstr ''cat'') ''dog'') ''cab'')
        (\<lambda>t'. Inr (subtree t' [GoRight]))
     = Inr (subtree (insert_spec (from_cstr ''cat'') ''dog'') [GoRight]) \<and>
   subtree (insert_spec (from_cstr ''cat'') ''dog'') [GoRight] = from_cstr ''dog''"
proof -
  have h: "\<not> on_path (insert_spec (from_cstr ''cat'') ''dog'') ''cab'' [GoRight]"
    by (simp add: zero_char_def)
  have "subtree (insert_spec (from_cstr ''cat'') ''dog'') [GoRight] = from_cstr ''dog''"
    by (simp add: zero_char_def)
  with insert_frame [OF h] h show ?thesis by simp
qed

subsection \<open>C6: the fold\<close>

text \<open>
  C6. \<^verbatim>\<open>fold\<close> returns the accumulator at the empty tree; at a node it reduces the
  accumulator over the children \<open>[left, center, right]\<close> from left to right, folding each
  child, and then applies the functor to the result and the node itself. So the functor is
  applied to the nodes in post-order, once at each position that holds a node.
\<close>

theorem fold_contract:
  "fold_tst Empty acc f = acc \<and>
   fold_tst (Node v w l m r) acc f
     = f (Detail_fold [l, m, r] acc (\<lambda>a t'. fold_tst t' a f)) (Node v w l m r) \<and>
   Detail_fold ts acc g = foldl g acc ts \<and>
   fold_tst t acc f = foldl f acc (postorder t) \<and>
   postorder t = map (subtree t) (positions t) \<and>
   distinct (positions t) \<and>
   set (positions t) = {p. \<not> empty (subtree t p)}"
  by (simp add: Detail_fold_foldl fold_tst_postorder postorder_positions [symmetric]
        distinct_positions set_positions)

subsection \<open>C7: which operations fail\<close>

text \<open>
  C7. \<^verbatim>\<open>value\<close>, \<^verbatim>\<open>word\<close>, \<^verbatim>\<open>left\<close>, \<^verbatim>\<open>center\<close> and \<^verbatim>\<open>right\<close> throw at the empty tree
  and succeed at every node; insertion, prefix search, \<^verbatim>\<open>exist\<close> and \<^verbatim>\<open>prefix\<close>, which
  call them, never throw. (\<^verbatim>\<open>empty\<close>, the constructors, \<^verbatim>\<open>fold\<close> and \<^verbatim>\<open>size\<close> call no
  accessor: their embeddings are total functions with no error result.)
\<close>

theorem accessors_fail_only_on_empty:
  "value (Empty :: 'c TST) = Inl EmptyTreeError \<and>
   word (Empty :: 'c TST) = Inl EmptyTreeError \<and>
   left (Empty :: 'c TST) = Inl EmptyTreeError \<and>
   center (Empty :: 'c TST) = Inl EmptyTreeError \<and>
   right (Empty :: 'c TST) = Inl EmptyTreeError \<and>
   value (Node v w l m r) = Inr v \<and>
   word (Node v w l m r) = Inr w \<and>
   left (Node v w l m r) = Inr l \<and>
   center (Node v w l m r) = Inr m \<and>
   right (Node v w l m r) = Inr r \<and>
   (\<exists>t'. insert_cstr t str = Inr t') \<and>
   (\<exists>t'. insert_string t str = Inr t') \<and>
   (\<exists>res. prefix_search t str acc parent = Inr res) \<and>
   (\<exists>b. exist t str = Inr b) \<and>
   (\<exists>s. prefix t str = Inr s)"
  by (simp add: insert_cstr_refines insert_string_total prefix_search_refines exist_has_word
        prefix_def)

subsection \<open>C8: what prefix search reports\<close>

text \<open>
  C8 as stated fails where the query is exhausted at a non-empty tree: the code reports
  the parent there, not the current tree. In the tree of \<^verbatim>\<open>"ab"\<close> the query \<^verbatim>\<open>"a"\<close> ends
  at the node of \<^verbatim>\<open>b\<close>, and the search reports the node of \<^verbatim>\<open>a\<close>.
\<close>

theorem prefix_search_self_counterexample:
  "prefix_search (from_cstr ''ab'') ''a'' 0 Empty
     \<noteq> Inr (prefix_search_spec (from_cstr ''ab'') (cstr ''a'') 0 Empty)"
  by (simp add: zero_char_def)

text \<open>
  C8, amended. Prefix search stops when the current tree is empty or the query is
  exhausted and reports the number of symbols matched so far together with its parent
  argument: the tree visited just before the current one, or the tree the caller passed
  (the empty tree, for \<^verbatim>\<open>exist\<close> and \<^verbatim>\<open>prefix\<close>) when it stops at once. Otherwise it
  goes left or right on a mismatch, without counting, and into the center on a match,
  consuming one symbol and counting it.
\<close>

theorem prefix_search_contract:
  "prefix_search t str acc parent = Inr (descend t (cstr str) acc parent)"
  by (rule prefix_search_refines)

subsection \<open>C9: the end-to-end scenario\<close>

text \<open>
  C9 as stated fails in its last part: the tree of \<^verbatim>\<open>"category"\<close>, \<^verbatim>\<open>"functor"\<close> and
  \<^verbatim>\<open>"theory"\<close> does not have 11 nodes.
\<close>

theorem scenario_counterexample:
  "\<not> (bind scenario (\<lambda>t. exist t ''category'') = Inr True \<and>
      bind scenario (\<lambda>t. exist t ''cat'') = Inr False \<and>
      bind scenario (\<lambda>t. prefix t ''catamorphism'') = Inr ''cat'' \<and>
      bind scenario (\<lambda>t. Inr (size_tst t)) = Inr 11)"
  by (simp add: scenario_def insert_string_def size_tst_def zero_char_def)

text \<open>
  C9, amended. After inserting \<^verbatim>\<open>"category"\<close>, \<^verbatim>\<open>"functor"\<close> and \<^verbatim>\<open>"theory"\<close> into the
  empty tree, \<^verbatim>\<open>exist("category")\<close> is true, \<^verbatim>\<open>exist("cat")\<close> is false,
  \<^verbatim>\<open>prefix("catamorphism")\<close> is \<^verbatim>\<open>"cat"\<close>, and \<^verbatim>\<open>size()\<close> is 21: the three words start
  with different symbols, so they share no node and need 8 + 7 + 6 of them.
\<close>

theorem scenario_results:
  "bind scenario (\<lambda>t. exist t ''category'') = Inr True \<and>
   bind scenario (\<lambda>t. exist t ''cat'') = Inr False \<and>
   bind scenario (\<lambda>t. prefix t ''catamorphism'') = Inr ''cat'' \<and>
   bind scenario (\<lambda>t. Inr (size_tst t)) = Inr 21"
  by (simp add: scenario_def insert_string_def size_tst_def exist_def prefix_def zero_char_def)

subsection \<open>C10: the empty sequence is never a member\<close>

text \<open>
  C10. For every tree \<open>T\<close>, \<open>T.exist\<close> of the empty sequence is false: the search stops
  at once and reports the empty parent it was given. Inserting the empty sequence returns
  \<open>T\<close>.
\<close>

theorem exist_empty_sequence:
  "exist t [] = Inr False \<and> insert_string t [] = Inr t \<and>
   prefix_search t [] 0 Empty = Inr (0, Empty)"
  by (simp add: exist_def insert_string_def)

end
